theory Spec2Isabelle
  imports Main "HOL-Library.AList" "HOL-Library.Multiset"
begin

section \<open>Data model of \<^verbatim>\<open>src/src/whiteboard.js\<close>\<close>

text \<open>
  The values an item's \<^verbatim>\<open>id\<close> and \<^verbatim>\<open>lowerId\<close> can hold. JavaScript numbers are
  restricted to the integers (no NaN, no fractions); on the values modelled here
  \<^verbatim>\<open>===\<close> and the key equality of \<^verbatim>\<open>Map\<close> and \<^verbatim>\<open>Set\<close> are both plain equality.
\<close>

datatype jsval = Undefined | Null | JBool bool | JNum int | JStr string

text \<open>What \<^verbatim>\<open>if (v)\<close> and \<^verbatim>\<open>v && ...\<close> test.\<close>

fun truthy :: "jsval \<Rightarrow> bool" where
  "truthy Undefined = False"
| "truthy Null = False"
| "truthy (JBool b) = b"
| "truthy (JNum n) = (n \<noteq> 0)"
| "truthy (JStr s) = (s \<noteq> [])"

text \<open>An item object \<^verbatim>\<open>{ id, lowerId, data }\<close>; the payload is opaque.\<close>

record 'd item =
  id_of :: jsval
  lowerId :: jsval
  data :: 'd

text \<open>
  Arrays and maps of the program hold references to item objects. The object store is
  \<open>heap\<close>, allocation takes the address \<open>next_ref\<close>. \<open>rand_calls\<close> counts the calls of
  \<^verbatim>\<open>Math.random\<close> made so far, and \<open>itemsList\<close> is the field \<^verbatim>\<open>this.itemsList\<close> of the
  whiteboard.
\<close>

type_synonym ref = nat

record 'd state =
  heap :: "ref \<Rightarrow> 'd item"
  next_ref :: ref
  rand_calls :: nat
  itemsList :: "ref list"

text \<open>The five \<^verbatim>\<open>throw new Error(...)\<close> sites, by message.\<close>

datatype error =
    DuplicateIdError          \<comment> \<open>\<^verbatim>\<open>Item with id ... already exists.\<close>\<close>
  | DanglingReferenceError    \<comment> \<open>\<^verbatim>\<open>Item with lowerId ... does not exist.\<close>\<close>
  | CycleError                \<comment> \<open>\<^verbatim>\<open>Cycle detected involving item ...\<close>\<close>
  | BrokenChainError          \<comment> \<open>\<^verbatim>\<open>... does not match the current top item.\<close>\<close>
  | NotFoundError             \<comment> \<open>\<^verbatim>\<open>... does not exist on the whiteboard.\<close>\<close>

section \<open>Reading the whiteboard\<close>

text \<open>\<^verbatim>\<open>items() { return [...this.itemsList]; }\<close>\<close>

definition items :: "'d state \<Rightarrow> ref list" where
  "items s = itemsList s"

text \<open>
  \<^verbatim>\<open>top() { return this.itemsList[this.itemsList.length - 1] || undefined; }\<close>
  Reading index \<open>-1\<close> of an empty array gives \<^verbatim>\<open>undefined\<close>; an object reference is
  never falsy. \<open>None\<close> stands for \<^verbatim>\<open>undefined\<close>.
\<close>

definition top_item :: "'d state \<Rightarrow> ref option" where
  "top_item s = (if itemsList s = [] then None else Some (last (itemsList s)))"

section \<open>Appending\<close>

text \<open>
  \<^verbatim>\<open>add(item)\<close>: the duplicate scan, then the comparison with the top item, which is
  guarded by \<^verbatim>\<open>this.top() &&\<close>, then the push. The state returned beside an error is
  the state at the \<^verbatim>\<open>throw\<close>.
\<close>

definition add :: "ref \<Rightarrow> 'd state \<Rightarrow> (error + unit) \<times> 'd state" where
  "add item s =
     (if \<exists>existingItem \<in> set (itemsList s). id_of (heap s existingItem) = id_of (heap s item)
      then (Inl DuplicateIdError, s)
      else (case top_item s of
              Some t \<Rightarrow>
                if id_of (heap s t) \<noteq> lowerId (heap s item)
                then (Inl BrokenChainError, s)
                else (Inr (), s\<lparr>itemsList := itemsList s @ [item]\<rparr>)
            | None \<Rightarrow> (Inr (), s\<lparr>itemsList := itemsList s @ [item]\<rparr>)))"

section \<open>Construction\<close>

text \<open>
  \<^verbatim>\<open>itemMap\<close> is a JavaScript \<^verbatim>\<open>Map\<close> from ids to item references: \<^verbatim>\<open>has\<close> and \<^verbatim>\<open>get\<close> are
  \<open>map_of\<close>, \<^verbatim>\<open>set\<close> is \<open>AList.update\<close> (replace in place, or append a new key).
\<close>

type_synonym itemMap = "(jsval \<times> ref) list"

text \<open>The first \<^verbatim>\<open>items.forEach\<close>: unique ids, and the map.\<close>

fun build_itemMap :: "(ref \<Rightarrow> 'd item) \<Rightarrow> ref list \<Rightarrow> itemMap \<Rightarrow> error + itemMap" where
  "build_itemMap h [] itemMap = Inr itemMap"
| "build_itemMap h (item # rest) itemMap =
     (if map_of itemMap (id_of (h item)) \<noteq> None then Inl DuplicateIdError
      else build_itemMap h rest (AList.update (id_of (h item)) item itemMap))"

text \<open>
  \<^verbatim>\<open>checkCycle\<close>, with the set \<^verbatim>\<open>visited\<close> passed in and returned. The walk goes down
  only when \<^verbatim>\<open>item.lowerId\<close> is truthy and a key of the map.
\<close>

function checkCycle ::
  "(ref \<Rightarrow> 'd item) \<Rightarrow> itemMap \<Rightarrow> ref \<Rightarrow> jsval set \<Rightarrow> error + jsval set" where
  "checkCycle h itemMap item visited =
     (if id_of (h item) \<in> visited then Inl CycleError
      else if truthy (lowerId (h item)) then
        (case map_of itemMap (lowerId (h item)) of
           Some lower \<Rightarrow>
             (case checkCycle h itemMap lower (insert (id_of (h item)) visited) of
                Inl e \<Rightarrow> Inl e
              | Inr visited' \<Rightarrow> Inr (visited' - {id_of (h item)}))
         | None \<Rightarrow> Inr (insert (id_of (h item)) visited - {id_of (h item)}))
      else Inr (insert (id_of (h item)) visited - {id_of (h item)}))"
  by pat_completeness auto
termination
proof (relation "measure (\<lambda>(h, itemMap, item, visited).
          2 * card ((\<lambda>kv. id_of (h (snd kv))) ` set itemMap - visited)
          + (if id_of (h item) \<in> (\<lambda>kv. id_of (h (snd kv))) ` set itemMap then 0 else 1))")
  show "wf (measure (\<lambda>(h :: ref \<Rightarrow> 'd item, itemMap :: itemMap, item :: ref, visited :: jsval set).
          2 * card ((\<lambda>kv. id_of (h (snd kv))) ` set itemMap - visited)
          + (if id_of (h item) \<in> (\<lambda>kv. id_of (h (snd kv))) ` set itemMap then 0 else 1)))"
    by simp
next
  fix h :: "ref \<Rightarrow> 'd item" and itemMap :: itemMap and item :: ref
    and visited :: "jsval set" and lower :: ref
  let ?ids = "(\<lambda>kv. id_of (h (snd kv))) ` set itemMap"
  assume fresh: "id_of (h item) \<notin> visited"
    and found: "map_of itemMap (lowerId (h item)) = Some lower"
  from found have "(lowerId (h item), lower) \<in> set itemMap"
    by (rule map_of_SomeD)
  then have low: "id_of (h lower) \<in> ?ids"
    by force
  have fin: "finite (?ids - visited)"
    by simp
  show "((h, itemMap, lower, insert (id_of (h item)) visited), (h, itemMap, item, visited))
        \<in> measure (\<lambda>(h, itemMap, item, visited).
             2 * card ((\<lambda>kv. id_of (h (snd kv))) ` set itemMap - visited)
             + (if id_of (h item) \<in> (\<lambda>kv. id_of (h (snd kv))) ` set itemMap then 0 else 1))"
  proof (cases "id_of (h item) \<in> ?ids")
    case True
    with fresh have mem: "id_of (h item) \<in> ?ids - visited"
      by simp
    have eq: "?ids - insert (id_of (h item)) visited = (?ids - visited) - {id_of (h item)}"
      by auto
    have "card (?ids - visited) > 0"
      using mem fin by (auto simp: card_gt_0_iff)
    with mem fin show ?thesis
      using low True by (simp add: eq)
  next
    case False
    then have "?ids - insert (id_of (h item)) visited = ?ids - visited"
      by auto
    with low False show ?thesis
      by simp
  qed
qed

text \<open>
  The second \<^verbatim>\<open>items.forEach\<close>: for each item in input order, the existence of its
  \<^verbatim>\<open>lowerId\<close> and then its own cycle walk.
\<close>

fun check_items ::
  "(ref \<Rightarrow> 'd item) \<Rightarrow> itemMap \<Rightarrow> ref list \<Rightarrow> jsval set \<Rightarrow> error + jsval set" where
  "check_items h itemMap [] visited = Inr visited"
| "check_items h itemMap (item # rest) visited =
     (if truthy (lowerId (h item)) \<and> map_of itemMap (lowerId (h item)) = None
      then Inl DanglingReferenceError
      else (case checkCycle h itemMap item visited of
              Inl e \<Rightarrow> Inl e
            | Inr visited' \<Rightarrow> check_items h itemMap rest visited'))"

text \<open>
  \<^verbatim>\<open>addItemToOrder\<close>, on the pair of \<^verbatim>\<open>orderedItems\<close> and \<^verbatim>\<open>addedItems\<close>. The source
  recursion has no guard of its own against a cycle of \<^verbatim>\<open>lowerId\<close>s, so the model is
  a partial function: \<open>None\<close> is a call that does not return.
\<close>

partial_function (option) addItemToOrder ::
  "(ref \<Rightarrow> 'd item) \<Rightarrow> itemMap \<Rightarrow> ref \<Rightarrow> ref list \<times> jsval set \<Rightarrow> (ref list \<times> jsval set) option"
  where
  "addItemToOrder h itemMap item st =
     (if id_of (h item) \<in> snd st then Some st
      else Option.bind
        (if truthy (lowerId (h item)) then
           (case map_of itemMap (lowerId (h item)) of
              Some lowerItem \<Rightarrow> addItemToOrder h itemMap lowerItem st
            | None \<Rightarrow> Some st)
         else Some st)
        (\<lambda>st'. Some (fst st' @ [item], insert (id_of (h item)) (snd st'))))"

text \<open>The third \<^verbatim>\<open>items.forEach(item => addItemToOrder(item))\<close>.\<close>

fun order_items ::
  "(ref \<Rightarrow> 'd item) \<Rightarrow> itemMap \<Rightarrow> ref list \<Rightarrow> ref list \<times> jsval set \<Rightarrow> (ref list \<times> jsval set) option"
  where
  "order_items h itemMap [] st = Some st"
| "order_items h itemMap (item # rest) st =
     Option.bind (addItemToOrder h itemMap item st) (order_items h itemMap rest)"

text \<open>
  \<^verbatim>\<open>constructor(items)\<close>: \<open>Some (Inl e)\<close> is a throw, \<open>Some (Inr s')\<close> the state with the new
  whiteboard, \<open>None\<close> a construction that does not return.
\<close>

definition constructor :: "ref list \<Rightarrow> 'd state \<Rightarrow> (error + 'd state) option" where
  "constructor items_in s =
     (case build_itemMap (heap s) items_in [] of
        Inl e \<Rightarrow> Some (Inl e)
      | Inr itemMap \<Rightarrow>
          (case check_items (heap s) itemMap items_in {} of
             Inl e \<Rightarrow> Some (Inl e)
           | Inr visited \<Rightarrow>
               map_option (\<lambda>st. Inr (s\<lparr>itemsList := fst st\<rparr>))
                 (order_items (heap s) itemMap items_in ([], {}))))"

section \<open>Extraction\<close>

text \<open>
  \<^verbatim>\<open>generateUniqueId() { return `id_${Math.random().toString(36).slice(2, 11)}`; }\<close>
  The text that \<^verbatim>\<open>Math.random().toString(36).slice(2, 11)\<close> evaluates to at the \<open>n\<close>-th call
  of \<^verbatim>\<open>Math.random\<close> is the parameter \<open>random n\<close>.
\<close>

definition generateUniqueId :: "(nat \<Rightarrow> string) \<Rightarrow> 'd state \<Rightarrow> jsval \<times> 'd state" where
  "generateUniqueId random s =
     (JStr (''id_'' @ random (rand_calls s)), s\<lparr>rand_calls := Suc (rand_calls s)\<rparr>)"

text \<open>
  The callback of \<^verbatim>\<open>items.map\<close>, item by item: look the id up in \<^verbatim>\<open>this.itemsList\<close>, throw
  when it is not there, otherwise allocate the object
  \<^verbatim>\<open>{...existingItem, id: this.generateUniqueId(), lowerId: undefined}\<close>.
\<close>

fun extract_map ::
  "(nat \<Rightarrow> string) \<Rightarrow> ref list \<Rightarrow> 'd state \<Rightarrow> (error + ref list) \<times> 'd state" where
  "extract_map random [] s = (Inr [], s)"
| "extract_map random (item # rest) s =
     (case find (\<lambda>existing. id_of (heap s existing) = id_of (heap s item)) (itemsList s) of
        None \<Rightarrow> (Inl NotFoundError, s)
      | Some existingItem \<Rightarrow>
          (case generateUniqueId random s of
             (newId, s1) \<Rightarrow>
               (case extract_map random rest
                       (s1\<lparr>heap := (heap s1)
                               (next_ref s1 := (heap s1 existingItem)\<lparr>id_of := newId, lowerId := Undefined\<rparr>),
                           next_ref := Suc (next_ref s1)\<rparr>) of
                  (Inl e, s2) \<Rightarrow> (Inl e, s2)
                | (Inr extractedItems, s2) \<Rightarrow> (Inr (next_ref s1 # extractedItems), s2))))"

text \<open>
  \<^verbatim>\<open>for (let i = 1; i < extractedItems.length; i++)
       extractedItems[i].lowerId = extractedItems[i - 1].id;\<close>
\<close>

function link_loop :: "ref list \<Rightarrow> nat \<Rightarrow> 'd state \<Rightarrow> 'd state" where
  "link_loop extractedItems i s =
     (if i < length extractedItems
      then link_loop extractedItems (Suc i)
             (s\<lparr>heap := (heap s)
                   (extractedItems ! i :=
                      (heap s (extractedItems ! i))
                        \<lparr>lowerId := id_of (heap s (extractedItems ! (i - 1)))\<rparr>)\<rparr>)
      else s)"
  by pat_completeness auto
termination
  by (relation "measure (\<lambda>(extractedItems, i, s). length extractedItems - i)") auto

text \<open>\<^verbatim>\<open>extract(items)\<close>; the state returned beside an error is the state at the \<^verbatim>\<open>throw\<close>.\<close>

definition extract_items ::
  "(nat \<Rightarrow> string) \<Rightarrow> ref list \<Rightarrow> 'd state \<Rightarrow> (error + ref list) \<times> 'd state" where
  "extract_items random items_in s =
     (case extract_map random items_in s of
        (Inl e, s1) \<Rightarrow> (Inl e, s1)
      | (Inr extractedItems, s1) \<Rightarrow> (Inr extractedItems, link_loop extractedItems 1 s1))"

section \<open>Properties of record sets\<close>

text \<open>
  The map that the first loop of the constructor builds from an input whose ids are
  pairwise distinct: one entry per item, in input order.
\<close>

definition index_of :: "(ref \<Rightarrow> 'd item) \<Rightarrow> ref list \<Rightarrow> itemMap" where
  "index_of h xs = map (\<lambda>r. (id_of (h r), r)) xs"

text \<open>No branching: no two distinct records share a defined \<^verbatim>\<open>lowerId\<close>.\<close>

definition no_branching :: "(ref \<Rightarrow> 'd item) \<Rightarrow> ref list \<Rightarrow> bool" where
  "no_branching h xs \<longleftrightarrow>
     (\<forall>a \<in> set xs. \<forall>b \<in> set xs.
        a \<noteq> b \<and> lowerId (h a) \<noteq> Undefined \<longrightarrow> lowerId (h a) \<noteq> lowerId (h b))"



section \<open>The states of the test suite\<close>

text \<open>An object store holding the listed objects at the addresses \<open>0, 1, ...\<close>.\<close>

definition objects :: "string item list \<Rightarrow> ref \<Rightarrow> string item" where
  "objects xs r =
     (if r < length xs then xs ! r else \<lparr>id_of = Undefined, lowerId = Undefined, data = []\<rparr>)"

text \<open>
  The objects of the test \<^verbatim>\<open>item ids exist on whiteboard, ...\<close> of
  \<^verbatim>\<open>src/test/whiteboard.test.js\<close>: the four items given to the constructor at the
  addresses 0 to 3, the two objects of the selection at 4 and 5.
\<close>

definition test_objects :: "string item list" where
  "test_objects =
     [\<lparr>id_of = JStr ''dog'', lowerId = Undefined, data = ''ww''\<rparr>,
      \<lparr>id_of = JStr ''cat'', lowerId = JStr ''rabbit'', data = ''xx''\<rparr>,
      \<lparr>id_of = JStr ''rabbit'', lowerId = JStr ''dog'', data = ''yy''\<rparr>,
      \<lparr>id_of = JStr ''tortoise'', lowerId = JStr ''cat'', data = ''zz''\<rparr>,
      \<lparr>id_of = JStr ''tortoise'', lowerId = JStr ''cat'', data = ''zz''\<rparr>,
      \<lparr>id_of = JStr ''rabbit'', lowerId = JStr ''dog'', data = ''yy''\<rparr>]"

definition test_start :: "string state" where
  "test_start = \<lparr>heap = objects test_objects, next_ref = 6, rand_calls = 0, itemsList = []\<rparr>"

text \<open>The whiteboard \<^verbatim>\<open>new Whiteboard(items)\<close> of that test: dog, rabbit, cat, tortoise.\<close>

definition test_board :: "string state" where
  "test_board = test_start\<lparr>itemsList := [0, 2, 1, 3]\<rparr>"

text \<open>
  The whiteboard of the \<^verbatim>\<open>add\<close> tests, dog, rabbit, cat, over the same objects.
\<close>

definition small_board :: "string state" where
  "small_board = test_start\<lparr>itemsList := [0, 2, 1]\<rparr>"

text \<open>
  The whiteboard of the test \<^verbatim>\<open>item id does not exist on whiteboard, throws exception\<close>,
  with the object \<^verbatim>\<open>{ id: 'aaa', lowerId: 'dog', data: 'yy' }\<close> of its selection at address 6.
\<close>

definition missing_board :: "string state" where
  "missing_board =
     \<lparr>heap = objects (test_objects @ [\<lparr>id_of = JStr ''aaa'', lowerId = JStr ''dog'', data = ''yy''\<rparr>]),
      next_ref = 7, rand_calls = 0, itemsList = [0, 2, 1, 3]\<rparr>"

text \<open>A random source whose draws differ from call to call, and one that repeats itself.\<close>

definition test_random :: "nat \<Rightarrow> string" where
  "test_random n = (if n = 0 then ''k3j9x0q2m'' else if n = 1 then ''7hw1c5zpd'' else ''u'')"

definition stuck_random :: "nat \<Rightarrow> string" where
  "stuck_random n = ''k3j9x0q2m''"

text \<open>An empty whiteboard and one object \<^verbatim>\<open>{ id: 'x', lowerId: 'zzz', data: 'new' }\<close>.\<close>

definition empty_board :: "string state" where
  "empty_board =
     \<lparr>heap = objects [\<lparr>id_of = JStr ''x'', lowerId = JStr ''zzz'', data = ''new''\<rparr>],
      next_ref = 1, rand_calls = 0, itemsList = []\<rparr>"

text \<open>
  The items of the test \<^verbatim>\<open>no bottom item, throws exception\<close>: the first record's
  \<^verbatim>\<open>lowerId\<close> names no record.
\<close>

definition dangling_start :: "string state" where
  "dangling_start =
     \<lparr>heap = objects
        [\<lparr>id_of = JStr ''dog'', lowerId = JStr ''zzz'', data = ''hello''\<rparr>,
         \<lparr>id_of = JStr ''hamster'', lowerId = JStr ''cat'', data = ''hello''\<rparr>,
         \<lparr>id_of = JStr ''cat'', lowerId = JStr ''rabbit'', data = ''hello''\<rparr>,
         \<lparr>id_of = JStr ''rabbit'', lowerId = JStr ''dog'', data = ''hello''\<rparr>],
      next_ref = 4, rand_calls = 0, itemsList = []\<rparr>"

text \<open>
  The items of the test \<^verbatim>\<open>items cannot be ordered, throws exception\<close>: the last
  record's \<^verbatim>\<open>lowerId\<close> names no record.
\<close>

definition unordered_start :: "string state" where
  "unordered_start =
     \<lparr>heap = objects
        [\<lparr>id_of = JStr ''dog'', lowerId = Undefined, data = ''hello''\<rparr>,
         \<lparr>id_of = JStr ''hamster'', lowerId = JStr ''cat'', data = ''hello''\<rparr>,
         \<lparr>id_of = JStr ''cat'', lowerId = JStr ''rabbit'', data = ''hello''\<rparr>,
         \<lparr>id_of = JStr ''rabbit'', lowerId = JStr ''zzz'', data = ''hello''\<rparr>],
      next_ref = 4, rand_calls = 0, itemsList = []\<rparr>"

text \<open>Two records that name each other, followed by a record whose \<^verbatim>\<open>lowerId\<close> names none.\<close>

definition cycle_then_dangling :: "string state" where
  "cycle_then_dangling =
     \<lparr>heap = objects
        [\<lparr>id_of = JStr ''dog'', lowerId = JStr ''rabbit'', data = ''hello''\<rparr>,
         \<lparr>id_of = JStr ''rabbit'', lowerId = JStr ''dog'', data = ''hello''\<rparr>,
         \<lparr>id_of = JStr ''cat'', lowerId = JStr ''zzz'', data = ''hello''\<rparr>],
      next_ref = 3, rand_calls = 0, itemsList = []\<rparr>"

text \<open>Two records on top of the same record.\<close>

definition branching_start :: "string state" where
  "branching_start =
     \<lparr>heap = objects
        [\<lparr>id_of = JStr ''dog'', lowerId = Undefined, data = ''hello''\<rparr>,
         \<lparr>id_of = JStr ''cat'', lowerId = JStr ''dog'', data = ''hello''\<rparr>,
         \<lparr>id_of = JStr ''rabbit'', lowerId = JStr ''dog'', data = ''hello''\<rparr>],
      next_ref = 3, rand_calls = 0, itemsList = []\<rparr>"

text \<open>
  A record whose \<^verbatim>\<open>lowerId\<close> is the empty string, and the record whose id is the empty
  string: \<^verbatim>\<open>{ id: 'a', lowerId: '', data: 'top' }\<close> at address 0 and
  \<^verbatim>\<open>{ id: '', lowerId: undefined, data: 'bottom' }\<close> at address 1.
\<close>

definition falsy_start :: "string state" where
  "falsy_start =
     \<lparr>heap = objects
        [\<lparr>id_of = JStr ''a'', lowerId = JStr [], data = ''top''\<rparr>,
         \<lparr>id_of = JStr [], lowerId = Undefined, data = ''bottom''\<rparr>],
      next_ref = 2, rand_calls = 0, itemsList = []\<rparr>"

text \<open>
  The recursive equations are unfolded by hand in the proofs below, never by the
  simplifier on its own.
\<close>

declare checkCycle.simps [simp del]
declare link_loop.simps [simp del]

section \<open>Appending: what \<^verbatim>\<open>add\<close> guarantees\<close>

lemma add_cases:
  "add item s = (Inl DuplicateIdError, s)
   \<or> add item s = (Inl BrokenChainError, s)
   \<or> add item s = (Inr (), s\<lparr>itemsList := itemsList s @ [item]\<rparr>)"
  by (simp add: add_def split: option.split)

lemma add_on_empty: "itemsList s = [] \<Longrightarrow> add item s = (Inr (), s\<lparr>itemsList := [item]\<rparr>)"
  by (simp add: add_def top_item_def)

text \<open>
  C6. Whenever \<^verbatim>\<open>add(x)\<close> succeeds, \<^verbatim>\<open>items()\<close> afterwards is the former \<^verbatim>\<open>items()\<close> with
  \<open>x\<close> appended at the end and \<^verbatim>\<open>top()\<close> is \<open>x\<close>; every object of the store, so every
  element that was there before, is what it was.
\<close>

theorem add_appends:
  assumes "add x s = (Inr u, s')"
  shows "items s' = items s @ [x] \<and> top_item s' = Some x \<and> heap s' = heap s
         \<and> take (length (items s)) (items s') = items s"
  using assms add_cases [of x s] by (auto simp: items_def top_item_def)

theorem add_appends_witness:
  "add 3 small_board = (Inr (), small_board\<lparr>itemsList := [0, 2, 1, 3]\<rparr>)
   \<and> items (small_board\<lparr>itemsList := [0, 2, 1, 3]\<rparr>) = items small_board @ [3]
   \<and> top_item (small_board\<lparr>itemsList := [0, 2, 1, 3]\<rparr>) = Some 3"
proof -
  have run: "add 3 small_board = (Inr (), small_board\<lparr>itemsList := [0, 2, 1, 3]\<rparr>)"
    by (simp add: add_def top_item_def small_board_def test_start_def objects_def test_objects_def)
  from add_appends [OF run] run show ?thesis
    by simp
qed

text \<open>
  C9. Whenever \<^verbatim>\<open>add(x)\<close> fails, with either of its two errors, the state after the call
  is the state before it: the ordered sequence is exactly what it was.
\<close>

theorem add_failure_leaves_state:
  assumes "add x s = (Inl e, s')"
  shows "s' = s \<and> items s' = items s \<and> (e = DuplicateIdError \<or> e = BrokenChainError)"
  using assms add_cases [of x s] by auto

theorem add_failure_leaves_state_witness:
  "add 1 small_board = (Inl DuplicateIdError, small_board)
   \<and> add 3 (test_start\<lparr>itemsList := [0, 2]\<rparr>)
       = (Inl BrokenChainError, test_start\<lparr>itemsList := [0, 2]\<rparr>)
   \<and> items small_board = [0, 2, 1]"
proof -
  have run1: "add 1 small_board = (Inl DuplicateIdError, small_board)"
    by (simp add: add_def small_board_def test_start_def objects_def test_objects_def)
  have "fst (add 3 (test_start\<lparr>itemsList := [0, 2]\<rparr>)) = Inl BrokenChainError"
    by (simp add: add_def top_item_def test_start_def objects_def test_objects_def)
  then have run2: "add 3 (test_start\<lparr>itemsList := [0, 2]\<rparr>)
                   = (Inl BrokenChainError, snd (add 3 (test_start\<lparr>itemsList := [0, 2]\<rparr>)))"
    by (simp add: prod_eq_iff)
  from add_failure_leaves_state [OF run1] add_failure_leaves_state [OF run2] run1 run2
  show ?thesis
    by (simp add: items_def small_board_def)
qed

text \<open>
  C2. On an empty whiteboard \<^verbatim>\<open>this.top()\<close> is \<^verbatim>\<open>undefined\<close>, the guard \<^verbatim>\<open>this.top() &&\<close>
  skips the comparison with \<^verbatim>\<open>item.lowerId\<close>, and the item is pushed whatever its
  \<^verbatim>\<open>lowerId\<close> is: \<^verbatim>\<open>add({ id: 'x', lowerId: 'zzz', data: 'new' })\<close> succeeds.
\<close>

theorem add_on_empty_accepts_any_lowerId:
  "itemsList empty_board = []
   \<and> lowerId (heap empty_board 0) = JStr ''zzz''
   \<and> add 0 empty_board = (Inr (), empty_board\<lparr>itemsList := [0]\<rparr>)
   \<and> fst (add 0 empty_board) \<noteq> Inl BrokenChainError"
  by (simp add: add_def top_item_def empty_board_def objects_def)

section \<open>Extraction: what \<^verbatim>\<open>extract\<close> does\<close>

lemma extract_map_frame:
  "extract_map random sel s = (res, s') \<Longrightarrow>
   itemsList s' = itemsList s \<and> next_ref s \<le> next_ref s'
   \<and> (\<forall>r. r < next_ref s \<longrightarrow> heap s' r = heap s r)"
proof (induction sel arbitrary: s res s')
  case Nil
  then show ?case by simp
next
  case (Cons item rest)
  show ?case
  proof (cases "find (\<lambda>existing. id_of (heap s existing) = id_of (heap s item)) (itemsList s)")
    case None
    with Cons.prems show ?thesis by simp
  next
    case (Some ex)
    let ?s2 = "s\<lparr>rand_calls := Suc (rand_calls s),
                 heap := (heap s)(next_ref s := (heap s ex)
                   \<lparr>id_of := JStr (''id_'' @ random (rand_calls s)), lowerId := Undefined\<rparr>),
                 next_ref := Suc (next_ref s)\<rparr>"
    obtain res2 s3 where rec: "extract_map random rest ?s2 = (res2, s3)"
      by (cases "extract_map random rest ?s2")
    from Cons.IH [OF rec]
    have ih: "itemsList s3 = itemsList s" "Suc (next_ref s) \<le> next_ref s3"
      "\<forall>r. r < Suc (next_ref s) \<longrightarrow> heap s3 r = heap ?s2 r"
      by simp_all
    from Cons.prems Some rec have "s' = s3"
      by (auto simp: generateUniqueId_def split: sum.splits)
    with ih show ?thesis
      by auto
  qed
qed

lemma extract_map_result:
  "extract_map random sel s = (Inr rs, s') \<Longrightarrow>
   rs = [next_ref s ..< next_ref s + length sel]
   \<and> next_ref s' = next_ref s + length sel
   \<and> (\<forall>k < length sel. id_of (heap s' (next_ref s + k)) = JStr (''id_'' @ random (rand_calls s + k))
         \<and> lowerId (heap s' (next_ref s + k)) = Undefined)"
proof (induction sel arbitrary: s rs s')
  case Nil
  then show ?case by simp
next
  case (Cons item rest)
  from Cons.prems obtain ex where
    Some: "find (\<lambda>existing. id_of (heap s existing) = id_of (heap s item)) (itemsList s) = Some ex"
    by (auto split: option.splits)
  let ?s2 = "s\<lparr>rand_calls := Suc (rand_calls s),
               heap := (heap s)(next_ref s := (heap s ex)
                 \<lparr>id_of := JStr (''id_'' @ random (rand_calls s)), lowerId := Undefined\<rparr>),
               next_ref := Suc (next_ref s)\<rparr>"
  from Cons.prems Some obtain rs2 where
    rec: "extract_map random rest ?s2 = (Inr rs2, s')" and rs: "rs = next_ref s # rs2"
    by (auto simp: generateUniqueId_def split: sum.splits prod.splits)
  from Cons.IH [OF rec]
  have ih: "rs2 = [Suc (next_ref s) ..< Suc (next_ref s) + length rest]"
    "next_ref s' = Suc (next_ref s) + length rest"
    "\<forall>k < length rest. id_of (heap s' (Suc (next_ref s) + k)) = JStr (''id_'' @ random (Suc (rand_calls s) + k))
         \<and> lowerId (heap s' (Suc (next_ref s) + k)) = Undefined"
    by simp_all
  from extract_map_frame [OF rec]
  have old: "heap s' (next_ref s) = heap ?s2 (next_ref s)"
    by simp
  have "\<forall>k < length (item # rest).
          id_of (heap s' (next_ref s + k)) = JStr (''id_'' @ random (rand_calls s + k))
          \<and> lowerId (heap s' (next_ref s + k)) = Undefined"
  proof (intro allI impI)
    fix k assume "k < length (item # rest)"
    show "id_of (heap s' (next_ref s + k)) = JStr (''id_'' @ random (rand_calls s + k))
          \<and> lowerId (heap s' (next_ref s + k)) = Undefined"
    proof (cases k)
      case 0
      with old show ?thesis by simp
    next
      case (Suc j)
      with \<open>k < length (item # rest)\<close> have "j < length rest" by simp
      with ih(3) Suc show ?thesis by simp
    qed
  qed
  moreover have "rs = [next_ref s ..< next_ref s + length (item # rest)]"
  proof -
    have "next_ref s < next_ref s + length (item # rest)"
      by simp
    then have "[next_ref s ..< next_ref s + length (item # rest)]
               = next_ref s # [Suc (next_ref s) ..< next_ref s + length (item # rest)]"
      by (rule upt_conv_Cons)
    moreover have "next_ref s + length (item # rest) = Suc (next_ref s) + length rest"
      by simp
    ultimately show ?thesis
      using rs ih(1) by (simp only:)
  qed
  ultimately show ?case
    using ih(2) by simp
qed

lemma link_loop_frame:
  "itemsList (link_loop rs i s) = itemsList s \<and> next_ref (link_loop rs i s) = next_ref s
   \<and> rand_calls (link_loop rs i s) = rand_calls s
   \<and> (\<forall>r. r \<notin> set rs \<longrightarrow> heap (link_loop rs i s) r = heap s r)
   \<and> (\<forall>r. id_of (heap (link_loop rs i s) r) = id_of (heap s r)
          \<and> data (heap (link_loop rs i s) r) = data (heap s r))"
proof (induction rs i s rule: link_loop.induct)
  case (1 rs i s)
  show ?case
  proof (cases "i < length rs")
    case True
    from 1 [OF True] True show ?thesis
      by (subst (1 2 3 4 5 6) link_loop.simps) (auto)
  next
    case False
    then show ?thesis
      by (simp add: link_loop.simps)
  qed
qed


text \<open>
  C7. A call of \<^verbatim>\<open>extract\<close>, whether it returns or throws, leaves \<^verbatim>\<open>this.itemsList\<close> as it
  was and writes to no object that existed before the call (an address below
  \<open>next_ref\<close>): the records of the whiteboard and the records of the selection keep
  their \<^verbatim>\<open>id\<close>, \<^verbatim>\<open>lowerId\<close> and \<^verbatim>\<open>data\<close>.
\<close>

theorem extract_leaves_objects:
  assumes "extract_items random sel s = (res, s')"
  shows "items s' = items s
         \<and> (\<forall>r. r < next_ref s \<longrightarrow> heap s' r = heap s r)
         \<and> ((\<forall>r \<in> set sel. r < next_ref s) \<longrightarrow> map (heap s') sel = map (heap s) sel)
         \<and> ((\<forall>r \<in> set (items s). r < next_ref s) \<longrightarrow>
              map (heap s') (items s') = map (heap s) (items s))"
proof -
  obtain res1 s1 where m: "extract_map random sel s = (res1, s1)"
    by (cases "extract_map random sel s")
  note f = extract_map_frame [OF m]
  have "itemsList s' = itemsList s \<and> (\<forall>r. r < next_ref s \<longrightarrow> heap s' r = heap s r)"
  proof (cases res1)
    case (Inl e)
    with assms m have "s' = s1"
      by (simp add: extract_items_def)
    with f show ?thesis
      by simp
  next
    case (Inr rs)
    with assms m have s': "s' = link_loop rs 1 s1"
      by (simp add: extract_items_def)
    from m Inr have rs: "rs = [next_ref s ..< next_ref s + length sel]"
      using extract_map_result by blast
    have "\<forall>r. r < next_ref s \<longrightarrow> heap s' r = heap s1 r"
      using link_loop_frame [of rs 1 s1] s' rs by simp
    with f s' link_loop_frame [of rs 1 s1] show ?thesis
      by simp
  qed
  then show ?thesis
    by (simp add: items_def)
qed

theorem extract_leaves_objects_witness:
  "items (snd (extract_items test_random [4, 5] test_board)) = items test_board
   \<and> heap (snd (extract_items test_random [4, 5] test_board)) 4 = heap test_board 4
   \<and> heap (snd (extract_items test_random [4, 5] test_board)) 5 = heap test_board 5
   \<and> map (heap (snd (extract_items test_random [4, 5] test_board))) [0, 2, 1, 3]
       = map (heap test_board) [0, 2, 1, 3]
   \<and> fst (extract_items test_random [4, 6] missing_board) = Inl NotFoundError
   \<and> items (snd (extract_items test_random [4, 6] missing_board)) = items missing_board
   \<and> heap (snd (extract_items test_random [4, 6] missing_board)) 4 = heap missing_board 4
   \<and> heap (snd (extract_items test_random [4, 6] missing_board)) 6 = heap missing_board 6"
proof -
  have "fst (extract_items test_random [4, 6] missing_board) = Inl NotFoundError"
    by code_simp
  with extract_leaves_objects [of test_random "[4, 5]" test_board
      "fst (extract_items test_random [4, 5] test_board)"
      "snd (extract_items test_random [4, 5] test_board)"]
    extract_leaves_objects [of test_random "[4, 6]" missing_board
      "fst (extract_items test_random [4, 6] missing_board)"
      "snd (extract_items test_random [4, 6] missing_board)"]
  show ?thesis
    by (simp add: test_board_def test_start_def missing_board_def items_def)
qed

text \<open>
  The ids of the records a successful \<^verbatim>\<open>extract\<close> returns: one new record per selected
  record, the id of the \<open>k\<close>-th being \<^verbatim>\<open>id_\<close> followed by the \<open>k\<close>-th draw of the call.
  Nothing else goes into an id: neither the ids on the whiteboard nor the ids given out
  before are looked at.
\<close>

lemma extract_id_format:
  assumes run: "extract_items random sel s = (Inr rs, s')"
  shows "length rs = length sel
         \<and> map (\<lambda>r. id_of (heap s' r)) rs
             = map (\<lambda>k. JStr (''id_'' @ random (rand_calls s + k))) [0..<length sel]"
proof -
  from run obtain s1 where m: "extract_map random sel s = (Inr rs, s1)"
    and s': "s' = link_loop rs 1 s1"
    by (auto simp: extract_items_def split: prod.splits sum.splits)
  note res = extract_map_result [OF m]
  have "map (\<lambda>k. next_ref s + k) [0..<length sel] = [next_ref s ..< next_ref s + length sel]"
    using map_add_upt [of "next_ref s" "length sel"] by (simp add: add.commute)
  with res have rs: "rs = map (\<lambda>k. next_ref s + k) [0..<length sel]"
    by simp
  have "map (\<lambda>r. id_of (heap s' r)) rs
        = map (\<lambda>k. JStr (''id_'' @ random (rand_calls s + k))) [0..<length sel]"
  proof (rule nth_equalityI)
    show "length (map (\<lambda>r. id_of (heap s' r)) rs)
          = length (map (\<lambda>k. JStr (''id_'' @ random (rand_calls s + k))) [0..<length sel])"
      by (simp add: rs)
  next
    fix i assume "i < length (map (\<lambda>r. id_of (heap s' r)) rs)"
    then have i: "i < length sel"
      by (simp add: rs)
    then have "rs ! i = next_ref s + i"
      by (simp add: rs)
    moreover have "id_of (heap s' (next_ref s + i)) = id_of (heap s1 (next_ref s + i))"
      using link_loop_frame [of rs 1 s1] by (simp add: s')
    moreover have "id_of (heap s1 (next_ref s + i)) = JStr (''id_'' @ random (rand_calls s + i))"
      using res i by blast
    ultimately show "map (\<lambda>r. id_of (heap s' r)) rs ! i
          = map (\<lambda>k. JStr (''id_'' @ random (rand_calls s + k))) [0..<length sel] ! i"
      using i by (simp add: rs)
  qed
  with rs show ?thesis
    by simp
qed

text \<open>
  C8. \<^verbatim>\<open>generateUniqueId\<close> checks nothing: when \<^verbatim>\<open>Math.random\<close> gives the same text at two
  calls, the two records that \<^verbatim>\<open>extract\<close> returns for the selection tortoise, rabbit
  carry the same id \<^verbatim>\<open>id_k3j9x0q2m\<close>, so the returned ids are not pairwise distinct.
\<close>

theorem extract_ids_can_collide:
  "fst (extract_items stuck_random [4, 5] test_board) = Inr [6, 7]
   \<and> id_of (heap (snd (extract_items stuck_random [4, 5] test_board)) 6) = JStr ''id_k3j9x0q2m''
   \<and> id_of (heap (snd (extract_items stuck_random [4, 5] test_board)) 7) = JStr ''id_k3j9x0q2m''
   \<and> id_of (heap (snd (extract_items stuck_random [4, 5] test_board)) 6)
     = id_of (heap (snd (extract_items stuck_random [4, 5] test_board)) 7)"
  by code_simp

text \<open>
  What a successful \<^verbatim>\<open>extract\<close> returns, for any selection: the first record of the
  result has no \<^verbatim>\<open>lowerId\<close>, every other record's \<^verbatim>\<open>lowerId\<close> is the new id of the record
  before it in the result, and the \<open>k\<close>-th record carries the data of the whiteboard
  record that has the id of the \<open>k\<close>-th selected record. The order of the chain is the
  order of the selection argument.
\<close>

lemma link_loop_links:
  "distinct rs \<Longrightarrow> j < length rs \<Longrightarrow>
   lowerId (heap (link_loop rs i s) (rs ! j))
     = (if i \<le> j then id_of (heap s (rs ! (j - 1))) else lowerId (heap s (rs ! j)))"
proof (induction rs i s rule: link_loop.induct)
  case (1 rs i s)
  show ?case
  proof (cases "i < length rs")
    case False
    with "1.prems" show ?thesis
      by (subst link_loop.simps) simp
  next
    case True
    let ?s1 = "s\<lparr>heap := (heap s)
                 (rs ! i := (heap s (rs ! i))\<lparr>lowerId := id_of (heap s (rs ! (i - 1)))\<rparr>)\<rparr>"
    have ids: "\<And>r. id_of (heap ?s1 r) = id_of (heap s r)"
      by simp
    have low: "lowerId (heap ?s1 (rs ! j))
               = (if j = i then id_of (heap s (rs ! (i - 1))) else lowerId (heap s (rs ! j)))"
      using "1.prems" True by (simp add: nth_eq_iff_index_eq)
    have "lowerId (heap (link_loop rs i s) (rs ! j))
          = lowerId (heap (link_loop rs (Suc i) ?s1) (rs ! j))"
      using True by (subst link_loop.simps) simp
    also have "\<dots> = (if Suc i \<le> j then id_of (heap ?s1 (rs ! (j - 1)))
                      else lowerId (heap ?s1 (rs ! j)))"
      using "1.IH" [OF True "1.prems"] .
    also have "\<dots> = (if i \<le> j then id_of (heap s (rs ! (j - 1))) else lowerId (heap s (rs ! j)))"
    proof (cases "j = i")
      case True
      then show ?thesis
        unfolding ids low by simp
    next
      case False
      then show ?thesis
        unfolding ids low by auto
    qed
    finally show ?thesis .
  qed
qed

lemma extract_links_selection_order:
  assumes run: "extract_items random sel s = (Inr rs, s')"
  shows "length rs = length sel
         \<and> (rs \<noteq> [] \<longrightarrow> lowerId (heap s' (hd rs)) = Undefined)
         \<and> (\<forall>i. Suc i < length rs \<longrightarrow>
               lowerId (heap s' (rs ! Suc i)) = id_of (heap s' (rs ! i)))"
proof -
  from run obtain s1 where m: "extract_map random sel s = (Inr rs, s1)"
    and s': "s' = link_loop rs 1 s1"
    by (auto simp: extract_items_def split: prod.splits sum.splits)
  note res = extract_map_result [OF m]
  from res have rs: "rs = [next_ref s ..< next_ref s + length sel]"
    by simp
  then have d: "distinct rs" and len: "length rs = length sel"
    by simp_all
  have nth: "\<And>k. k < length sel \<Longrightarrow> rs ! k = next_ref s + k"
    by (simp add: rs)
  have bottom: "lowerId (heap s' (hd rs)) = Undefined" if "rs \<noteq> []"
  proof -
    from that len have 0: "0 < length sel" "0 < length rs"
      by auto
    with res nth [of 0] have "lowerId (heap s1 (rs ! 0)) = Undefined"
      by auto
    with link_loop_links [OF d 0(2), of 1 s1] that show ?thesis
      by (simp add: s' hd_conv_nth)
  qed
  have links: "lowerId (heap s' (rs ! Suc i)) = id_of (heap s' (rs ! i))" if "Suc i < length rs" for i
  proof -
    from link_loop_links [OF d that, of 1 s1]
    have "lowerId (heap s' (rs ! Suc i)) = id_of (heap s1 (rs ! i))"
      by (simp add: s')
    also have "\<dots> = id_of (heap s' (rs ! i))"
      using link_loop_frame [of rs 1 s1] by (simp add: s')
    finally show ?thesis .
  qed
  from len bottom links show ?thesis
    by blast
qed

lemma extract_map_data:
  "extract_map random sel s = (Inr rs, s') \<Longrightarrow>
   \<forall>r \<in> set sel \<union> set (itemsList s). r < next_ref s \<Longrightarrow>
   \<forall>k < length sel. \<exists>e. find (\<lambda>x. id_of (heap s x) = id_of (heap s (sel ! k))) (itemsList s) = Some e
                        \<and> data (heap s' (next_ref s + k)) = data (heap s e)"
proof (induction sel arbitrary: s rs s')
  case Nil
  then show ?case by simp
next
  case (Cons item rest)
  from Cons.prems(1) obtain ex where
    Some: "find (\<lambda>x. id_of (heap s x) = id_of (heap s item)) (itemsList s) = Some ex"
    by (auto split: option.splits)
  let ?s2 = "s\<lparr>rand_calls := Suc (rand_calls s),
               heap := (heap s)(next_ref s := (heap s ex)
                 \<lparr>id_of := JStr (''id_'' @ random (rand_calls s)), lowerId := Undefined\<rparr>),
               next_ref := Suc (next_ref s)\<rparr>"
  from Cons.prems(1) Some obtain rs2 where
    rec: "extract_map random rest ?s2 = (Inr rs2, s')"
    by (auto simp: generateUniqueId_def split: sum.splits prod.splits)
  have same: "\<And>r. r < next_ref s \<Longrightarrow> heap ?s2 r = heap s r"
    by simp
  from Cons.prems(2) have alloc2: "\<forall>r \<in> set rest \<union> set (itemsList ?s2). r < next_ref ?s2"
    by (auto intro: less_SucI)
  note ih = Cons.IH [OF rec alloc2]
  from extract_map_frame [OF rec] have old: "heap s' (next_ref s) = heap ?s2 (next_ref s)"
    by simp
  show ?case
  proof (intro allI impI)
    fix k assume k: "k < length (item # rest)"
    show "\<exists>e. find (\<lambda>x. id_of (heap s x) = id_of (heap s ((item # rest) ! k))) (itemsList s) = Some e
              \<and> data (heap s' (next_ref s + k)) = data (heap s e)"
    proof (cases k)
      case 0
      with Some old show ?thesis
        by simp
    next
      case (Suc j)
      with k have j: "j < length rest"
        by simp
      with ih obtain e where
        f: "find (\<lambda>x. id_of (heap ?s2 x) = id_of (heap ?s2 (rest ! j))) (itemsList ?s2) = Some e"
        and dat: "data (heap s' (next_ref ?s2 + j)) = data (heap ?s2 e)"
        by blast
      from j Cons.prems(2) have "rest ! j < next_ref s"
        by simp
      then have "find (\<lambda>x. id_of (heap ?s2 x) = id_of (heap ?s2 (rest ! j))) (itemsList ?s2)
                 = find (\<lambda>x. id_of (heap s x) = id_of (heap s (rest ! j))) (itemsList s)"
        using Cons.prems(2) by (intro find_cong) auto
      with f have f': "find (\<lambda>x. id_of (heap s x) = id_of (heap s (rest ! j))) (itemsList s) = Some e"
        by simp
      then have "e \<in> set (itemsList s)"
        by (auto simp: find_Some_iff)
      with Cons.prems(2) have "e < next_ref s"
        by simp
      with dat f' Suc show ?thesis
        by simp
    qed
  qed
qed

lemma extract_copies_data:
  assumes run: "extract_items random sel s = (Inr rs, s')"
    and alloc: "\<forall>r \<in> set sel \<union> set (itemsList s). r < next_ref s"
    and k: "k < length sel"
  shows "\<exists>e. find (\<lambda>x. id_of (heap s x) = id_of (heap s (sel ! k))) (itemsList s) = Some e
             \<and> data (heap s' (rs ! k)) = data (heap s e)"
proof -
  from run obtain s1 where m: "extract_map random sel s = (Inr rs, s1)"
    and s': "s' = link_loop rs 1 s1"
    by (auto simp: extract_items_def split: prod.splits sum.splits)
  from extract_map_result [OF m] k have "rs ! k = next_ref s + k"
    by simp
  moreover have "data (heap s' (rs ! k)) = data (heap s1 (rs ! k))"
    using link_loop_frame [of rs 1 s1] by (simp add: s')
  ultimately show ?thesis
    using extract_map_data [OF m alloc] k by simp
qed

text \<open>
  C1. On the whiteboard dog, rabbit, cat, tortoise of the test suite, with the selection
  given as tortoise, rabbit, the copy of tortoise (data \<^verbatim>\<open>zz\<close>) gets \<^verbatim>\<open>lowerId\<close> undefined
  and the copy of rabbit (data \<^verbatim>\<open>yy\<close>) gets the id of the copy of tortoise: the records
  are chained in the order of the selection, not in their order on the whiteboard,
  where rabbit lies below tortoise.
\<close>

theorem extract_chains_in_selection_order:
  "constructor [0, 1, 2, 3] test_start = Some (Inr test_board)
   \<and> items test_board = [0, 2, 1, 3]
   \<and> id_of (heap test_board 2) = JStr ''rabbit'' \<and> id_of (heap test_board 3) = JStr ''tortoise''
   \<and> id_of (heap test_board 4) = JStr ''tortoise'' \<and> id_of (heap test_board 5) = JStr ''rabbit''
   \<and> fst (extract_items test_random [4, 5] test_board) = Inr [6, 7]
   \<and> data (heap (snd (extract_items test_random [4, 5] test_board)) 6) = ''zz''
   \<and> lowerId (heap (snd (extract_items test_random [4, 5] test_board)) 6) = Undefined
   \<and> data (heap (snd (extract_items test_random [4, 5] test_board)) 7) = ''yy''
   \<and> lowerId (heap (snd (extract_items test_random [4, 5] test_board)) 7)
     = id_of (heap (snd (extract_items test_random [4, 5] test_board)) 6)"
proof -
  have "constructor [0, 1, 2, 3] test_start = Some (Inr test_board)"
    by (simp add: constructor_def test_start_def test_board_def objects_def test_objects_def
        checkCycle.simps addItemToOrder.simps)
  moreover have
    "items test_board = [0, 2, 1, 3]
     \<and> id_of (heap test_board 2) = JStr ''rabbit'' \<and> id_of (heap test_board 3) = JStr ''tortoise''
     \<and> id_of (heap test_board 4) = JStr ''tortoise'' \<and> id_of (heap test_board 5) = JStr ''rabbit''
     \<and> fst (extract_items test_random [4, 5] test_board) = Inr [6, 7]
     \<and> data (heap (snd (extract_items test_random [4, 5] test_board)) 6) = ''zz''
     \<and> lowerId (heap (snd (extract_items test_random [4, 5] test_board)) 6) = Undefined
     \<and> data (heap (snd (extract_items test_random [4, 5] test_board)) 7) = ''yy''
     \<and> lowerId (heap (snd (extract_items test_random [4, 5] test_board)) 7)
       = id_of (heap (snd (extract_items test_random [4, 5] test_board)) 6)"
    by code_simp
  ultimately show ?thesis
    by (rule conjI)
qed

section \<open>Construction: the checks\<close>

lemma update_fresh: "map_of m k = None \<Longrightarrow> AList.update k v m = m @ [(k, v)]"
  by (induction m) (auto split: if_splits)

lemma build_itemMap_eq:
  "build_itemMap h xs m0 =
     (if distinct (map (\<lambda>r. id_of (h r)) xs) \<and> (\<forall>r \<in> set xs. map_of m0 (id_of (h r)) = None)
      then Inr (m0 @ index_of h xs) else Inl DuplicateIdError)"
proof (induction xs arbitrary: m0)
  case Nil
  then show ?case by (simp add: index_of_def)
next
  case (Cons x xs)
  show ?case
  proof (cases "map_of m0 (id_of (h x)) = None")
    case False
    then show ?thesis by auto
  next
    case True
    have fresh: "\<And>r. map_of (m0 @ [(id_of (h x), x)]) (id_of (h r)) = None
              \<longleftrightarrow> map_of m0 (id_of (h r)) = None \<and> id_of (h r) \<noteq> id_of (h x)"
      by (auto simp: map_add_def split: option.splits)
    have cond: "(distinct (map (\<lambda>r. id_of (h r)) xs)
                 \<and> (\<forall>r \<in> set xs. map_of (m0 @ [(id_of (h x), x)]) (id_of (h r)) = None))
                \<longleftrightarrow> (distinct (map (\<lambda>r. id_of (h r)) (x # xs))
                     \<and> (\<forall>r \<in> set (x # xs). map_of m0 (id_of (h r)) = None))"
      unfolding fresh using True by (simp add: image_iff) metis
    have "build_itemMap h (x # xs) m0 = build_itemMap h xs (m0 @ [(id_of (h x), x)])"
      using True by (simp add: update_fresh)
    also have "\<dots> = (if distinct (map (\<lambda>r. id_of (h r)) (x # xs))
                        \<and> (\<forall>r \<in> set (x # xs). map_of m0 (id_of (h r)) = None)
                     then Inr ((m0 @ [(id_of (h x), x)]) @ index_of h xs)
                     else Inl DuplicateIdError)"
      unfolding Cons.IH [of "m0 @ [(id_of (h x), x)]"] cond ..
    finally show ?thesis
      by (simp add: index_of_def)
  qed
qed

lemma build_itemMap_index:
  "build_itemMap h xs [] = Inr m \<longleftrightarrow> distinct (map (\<lambda>r. id_of (h r)) xs) \<and> m = index_of h xs"
  by (auto simp: build_itemMap_eq)

lemma index_of_Some:
  assumes "distinct (map (\<lambda>r. id_of (h r)) xs)"
  shows "map_of (index_of h xs) k = Some r \<longleftrightarrow> r \<in> set xs \<and> id_of (h r) = k"
proof -
  have "map fst (index_of h xs) = map (\<lambda>r. id_of (h r)) xs"
    by (simp add: index_of_def comp_def)
  with assms have "distinct (map fst (index_of h xs))"
    by simp
  then have "map_of (index_of h xs) k = Some r \<longleftrightarrow> (k, r) \<in> set (index_of h xs)"
    by simp
  then show ?thesis
    by (auto simp: index_of_def)
qed

lemma index_of_None:
  "map_of (index_of h xs) k = None \<longleftrightarrow> k \<notin> (\<lambda>r. id_of (h r)) ` set xs"
  by (simp add: index_of_def map_of_eq_None_iff image_image)

lemma checkCycle_result:
  "checkCycle h m item visited = Inl e \<Longrightarrow> e = CycleError"
  "checkCycle h m item visited = Inr visited' \<Longrightarrow> visited' = visited"
proof (induction h m item visited arbitrary: e visited' rule: checkCycle.induct)
  case (1 h m item visited)
  {
    case 1
    then show ?case
      using "1.IH"(1) by (subst (asm) checkCycle.simps) (auto split: if_splits option.splits sum.splits)
  next
    case 2
    then show ?case
      using "1.IH"(2) by (subst (asm) checkCycle.simps) (auto split: if_splits option.splits sum.splits)
  }
qed


lemma check_items_prefix:
  assumes "\<forall>r \<in> set pre. \<not> (truthy (lowerId (h r)) \<and> map_of m (lowerId (h r)) = None)"
  shows "check_items h m (pre @ rest) visited =
           (if \<exists>r \<in> set pre. checkCycle h m r visited = Inl CycleError then Inl CycleError
            else check_items h m rest visited)"
  using assms
proof (induction pre)
  case Nil
  then show ?case by simp
next
  case (Cons x pre)
  show ?case
  proof (cases "checkCycle h m x visited")
    case (Inl e)
    with checkCycle_result(1) [OF Inl] Cons.prems show ?thesis
      by auto
  next
    case (Inr v)
    with checkCycle_result(2) [OF Inr] Cons show ?thesis
      by auto
  qed
qed

text \<open>
  C3, as amended. The records are checked in input order, each record's \<^verbatim>\<open>lowerId\<close> for
  existence and then at once its own cycle walk. For an input with unique ids in which
  \<open>d\<close> is the first record whose truthy \<^verbatim>\<open>lowerId\<close> names no record of the input,
  construction fails: with \<open>CycleError\<close> when the cycle walk of a record placed before
  \<open>d\<close> fails, with \<open>DanglingReferenceError\<close> otherwise.
\<close>

theorem dangling_reference_fails:
  assumes uniq: "distinct (map (\<lambda>r. id_of (heap s r)) (pre @ d # post))"
    and d: "truthy (lowerId (heap s d))"
      "lowerId (heap s d) \<notin> (\<lambda>r. id_of (heap s r)) ` set (pre @ d # post)"
    and first: "\<forall>r \<in> set pre. truthy (lowerId (heap s r)) \<longrightarrow>
                  lowerId (heap s r) \<in> (\<lambda>r. id_of (heap s r)) ` set (pre @ d # post)"
  shows "constructor (pre @ d # post) s =
           Some (Inl (if \<exists>r \<in> set pre.
                           checkCycle (heap s) (index_of (heap s) (pre @ d # post)) r {}
                             = Inl CycleError
                      then CycleError else DanglingReferenceError))"
proof -
  let ?h = "heap s" and ?xs = "pre @ d # post"
  let ?m = "index_of ?h ?xs"
  from uniq have b: "build_itemMap ?h ?xs [] = Inr ?m"
    by (simp only: build_itemMap_index)
  from first have "\<forall>r \<in> set pre. \<not> (truthy (lowerId (?h r)) \<and> map_of ?m (lowerId (?h r)) = None)"
    by (simp only: index_of_None) blast
  from check_items_prefix [OF this, of "d # post" "{}"]
  have c: "check_items ?h ?m ?xs {} =
             (if \<exists>r \<in> set pre. checkCycle ?h ?m r {} = Inl CycleError then Inl CycleError
              else check_items ?h ?m (d # post) {})" .
  from d(2) have "map_of ?m (lowerId (?h d)) = None"
    by (simp add: index_of_None)
  with d(1) have "check_items ?h ?m (d # post) {} = Inl DanglingReferenceError"
    by simp
  with b c show ?thesis
    by (simp add: constructor_def)
qed

theorem dangling_reference_fails_witness:
  "constructor [0, 1, 2, 3] unordered_start = Some (Inl DanglingReferenceError)"
proof -
  have u: "distinct (map (\<lambda>r. id_of (heap unordered_start r)) ([0, 1, 2] @ 3 # []))"
    by (simp add: unordered_start_def objects_def)
  have t: "truthy (lowerId (heap unordered_start 3))"
    by (simp add: unordered_start_def objects_def)
  have a: "lowerId (heap unordered_start 3)
           \<notin> (\<lambda>r. id_of (heap unordered_start r)) ` set ([0, 1, 2] @ 3 # [])"
    by (simp add: unordered_start_def objects_def)
  have f: "\<forall>r \<in> set [0, 1, 2]. truthy (lowerId (heap unordered_start r)) \<longrightarrow>
             lowerId (heap unordered_start r)
             \<in> (\<lambda>r. id_of (heap unordered_start r)) ` set ([0, 1, 2] @ 3 # [])"
    by (simp add: unordered_start_def objects_def)
  have c: "\<not> (\<exists>r \<in> set [0, 1, 2].
              checkCycle (heap unordered_start)
                (index_of (heap unordered_start) ([0, 1, 2] @ 3 # [])) r {} = Inl CycleError)"
    by (simp add: unordered_start_def objects_def index_of_def checkCycle.simps)
  from dangling_reference_fails [OF u t a f] c show ?thesis
    by simp
qed

text \<open>
  C3 as stated fails: the ids dog, rabbit, cat are unique and cat's \<^verbatim>\<open>lowerId\<close> \<^verbatim>\<open>zzz\<close> names
  no record, yet construction fails with \<open>CycleError\<close>, raised by the walk of the first
  record before the third record is looked at.
\<close>

theorem cycle_reported_before_dangling:
  "id_of (heap cycle_then_dangling 0) = JStr ''dog''
   \<and> id_of (heap cycle_then_dangling 1) = JStr ''rabbit''
   \<and> id_of (heap cycle_then_dangling 2) = JStr ''cat''
   \<and> lowerId (heap cycle_then_dangling 2) = JStr ''zzz''
   \<and> constructor [0, 1, 2] cycle_then_dangling = Some (Inl CycleError)
   \<and> constructor [0, 1, 2] cycle_then_dangling \<noteq> Some (Inl DanglingReferenceError)"
  by (simp add: constructor_def cycle_then_dangling_def objects_def checkCycle.simps)

text \<open>
  C10. A record whose \<^verbatim>\<open>lowerId\<close> is falsy, \<^verbatim>\<open>undefined\<close> or not, is treated as a record with
  no lower record, whatever the map holds: the existence check raises no error for it,
  its cycle walk stops at the record itself, \<^verbatim>\<open>addItemToOrder\<close> pushes it without placing
  any record before it, and a whiteboard is constructed from it alone.
\<close>

theorem falsy_lowerId_is_no_lowerId:
  assumes "\<not> truthy (lowerId (heap s item))"
  shows "check_items (heap s) itemMap [item] {} = Inr {}
         \<and> checkCycle (heap s) itemMap item visited
             = (if id_of (heap s item) \<in> visited then Inl CycleError else Inr visited)
         \<and> addItemToOrder (heap s) itemMap item st
             = (if id_of (heap s item) \<in> snd st then Some st
                else Some (fst st @ [item], insert (id_of (heap s item)) (snd st)))
         \<and> constructor [item] s = Some (Inr (s\<lparr>itemsList := [item]\<rparr>))"
proof -
  have c: "\<And>m v. checkCycle (heap s) m item v
             = (if id_of (heap s item) \<in> v then Inl CycleError else Inr v)"
    using assms by (subst checkCycle.simps) auto
  have a: "\<And>m st. addItemToOrder (heap s) m item st
             = (if id_of (heap s item) \<in> snd st then Some st
                else Some (fst st @ [item], insert (id_of (heap s item)) (snd st)))"
    using assms by (subst addItemToOrder.simps) simp
  have "constructor [item] s = Some (Inr (s\<lparr>itemsList := [item]\<rparr>))"
    using assms by (simp add: constructor_def a c)
  with assms a c show ?thesis
    by simp
qed

theorem falsy_lowerId_is_no_lowerId_witness:
  "lowerId (heap falsy_start 0) = JStr [] \<and> JStr [] \<noteq> Undefined
   \<and> check_items (heap falsy_start) [] [0] {} = Inr {}
   \<and> checkCycle (heap falsy_start) (index_of (heap falsy_start) [0, 1]) 0 {} = Inr {}
   \<and> addItemToOrder (heap falsy_start) (index_of (heap falsy_start) [0, 1]) 0 ([], {})
       = Some ([0], {JStr ''a''})
   \<and> constructor [0] falsy_start = Some (Inr (falsy_start\<lparr>itemsList := [0]\<rparr>))"
proof -
  have f: "\<not> truthy (lowerId (heap falsy_start 0))"
    by (simp add: falsy_start_def objects_def)
  from falsy_lowerId_is_no_lowerId [OF f, of "[]" "{}" "([], {})"]
    falsy_lowerId_is_no_lowerId [OF f, of "index_of (heap falsy_start) [0, 1]" "{}" "([], {})"]
  show ?thesis
    by (simp add: falsy_start_def objects_def)
qed

section \<open>Construction: the order\<close>

text \<open>
  When the cycle walk of a record has returned, \<^verbatim>\<open>addItemToOrder\<close> returns for it: it
  appends records not yet placed, each once, ending with the record itself.
\<close>

lemma check_items_ok:
  "check_items h m ys V = Inr V' \<Longrightarrow>
   V' = V \<and> (\<forall>x \<in> set ys. checkCycle h m x V = Inr V)"
proof (induction ys)
  case Nil
  then show ?case by simp
next
  case (Cons y ys)
  from Cons.prems obtain V1 where y: "checkCycle h m y V = Inr V1"
    and rest: "check_items h m ys V1 = Inr V'"
    by (auto split: if_splits sum.splits)
  from checkCycle_result(2) [OF y] have "V1 = V" .
  with y rest Cons.IH show ?case
    by simp
qed

lemma addItemToOrder_returns:
  "checkCycle h m item V = Inr V' \<Longrightarrow>
   \<forall>k r. map_of m k = Some r \<longrightarrow> r \<in> X \<Longrightarrow>
   inj_on (\<lambda>r. id_of (h r)) X \<Longrightarrow> item \<in> X \<Longrightarrow> set ord \<subseteq> X \<Longrightarrow> distinct ord \<Longrightarrow>
   \<exists>new. addItemToOrder h m item (ord, (\<lambda>r. id_of (h r)) ` set ord)
            = Some (ord @ new, (\<lambda>r. id_of (h r)) ` set (ord @ new))
         \<and> set new \<subseteq> X \<and> distinct (ord @ new)
         \<and> (\<lambda>r. id_of (h r)) ` set new \<inter> V = {} \<and> item \<in> set (ord @ new)"
proof (induction h m item V arbitrary: V' ord rule: checkCycle.induct)
  case (1 h m item V)
  let ?id = "\<lambda>r. id_of (h r)"
  note M = "1.prems"(2) and inj = "1.prems"(3) and X = "1.prems"(4,5) and dist = "1.prems"(6)
  from "1.prems"(1) have fresh: "?id item \<notin> V"
    by (subst (asm) checkCycle.simps) (simp split: if_splits)
  show ?case
  proof (cases "?id item \<in> ?id ` set ord")
    case True
    then obtain r where r: "r \<in> set ord" "?id r = ?id item"
      by auto
    with X inj have "r = item"
      by (auto dest: inj_onD)
    with r have "item \<in> set ord"
      by simp
    moreover from True
    have "addItemToOrder h m item (ord, ?id ` set ord) = Some (ord, ?id ` set ord)"
      by (subst addItemToOrder.simps) simp
    ultimately show ?thesis
      using dist by (intro exI [of _ "[]"]) simp
  next
    case False
    then have notin: "item \<notin> set ord"
      by auto
    show ?thesis
    proof (cases "truthy (lowerId (h item)) \<and> map_of m (lowerId (h item)) \<noteq> None")
      case True
      then obtain l where t: "truthy (lowerId (h item))"
        and l: "map_of m (lowerId (h item)) = Some l"
        by auto
      from "1.prems"(1) fresh t l obtain V1 where
        walk: "checkCycle h m l (insert (?id item) V) = Inr V1"
        by (subst (asm) checkCycle.simps) (simp split: sum.splits)
      from M l have "l \<in> X"
        by blast
      from "1.IH" [OF fresh t l walk M inj this X(2) dist]
      obtain new where rec: "addItemToOrder h m l (ord, ?id ` set ord)
                               = Some (ord @ new, ?id ` set (ord @ new))"
        and new: "set new \<subseteq> X" "distinct (ord @ new)"
          "?id ` set new \<inter> insert (?id item) V = {}"
        by blast
      from new(3) have "item \<notin> set new"
        by auto
      with notin new X(1) have
        "set (new @ [item]) \<subseteq> X" "distinct (ord @ new @ [item])"
        "?id ` set (new @ [item]) \<inter> V = {}" "item \<in> set (ord @ new @ [item])"
        using fresh by auto
      moreover have "addItemToOrder h m item (ord, ?id ` set ord)
                     = Some (ord @ new @ [item], ?id ` set (ord @ new @ [item]))"
        using False t l rec by (subst addItemToOrder.simps) simp
      ultimately show ?thesis
        by blast
    next
      case no_lower: False
      from notin X dist fresh have
        "set [item] \<subseteq> X" "distinct (ord @ [item])"
        "?id ` set [item] \<inter> V = {}" "item \<in> set (ord @ [item])"
        by auto
      moreover have "addItemToOrder h m item (ord, ?id ` set ord)
                     = Some (ord @ [item], ?id ` set (ord @ [item]))"
        using False no_lower by (subst addItemToOrder.simps) auto
      ultimately show ?thesis
        by blast
    qed
  qed
qed

lemma order_items_returns:
  "\<forall>x \<in> set ys. checkCycle h m x {} = Inr {} \<Longrightarrow>
   \<forall>k r. map_of m k = Some r \<longrightarrow> r \<in> X \<Longrightarrow>
   inj_on (\<lambda>r. id_of (h r)) X \<Longrightarrow> set ys \<subseteq> X \<Longrightarrow> set ord \<subseteq> X \<Longrightarrow> distinct ord \<Longrightarrow>
   \<exists>new. order_items h m ys (ord, (\<lambda>r. id_of (h r)) ` set ord)
            = Some (ord @ new, (\<lambda>r. id_of (h r)) ` set (ord @ new))
         \<and> set new \<subseteq> X \<and> distinct (ord @ new) \<and> set ys \<subseteq> set (ord @ new)"
proof (induction ys arbitrary: ord)
  case Nil
  then show ?case
    by (intro exI [of _ "[]"]) simp
next
  case (Cons y ys)
  let ?id = "\<lambda>r. id_of (h r)"
  from Cons.prems have y: "checkCycle h m y {} = Inr {}" "y \<in> X"
    by simp_all
  from addItemToOrder_returns [OF y(1) Cons.prems(2,3) y(2) Cons.prems(5,6)]
  obtain n1 where a: "addItemToOrder h m y (ord, ?id ` set ord)
                        = Some (ord @ n1, ?id ` set (ord @ n1))"
    and n1: "set n1 \<subseteq> X" "distinct (ord @ n1)" "y \<in> set (ord @ n1)"
    by blast
  from Cons.prems n1 have pre: "\<forall>x \<in> set ys. checkCycle h m x {} = Inr {}"
    "set ys \<subseteq> X" "set (ord @ n1) \<subseteq> X"
    by simp_all
  from Cons.IH [OF pre(1) Cons.prems(2,3) pre(2,3) n1(2)]
  obtain n2 where o: "order_items h m ys (ord @ n1, ?id ` set (ord @ n1))
                        = Some ((ord @ n1) @ n2, ?id ` set ((ord @ n1) @ n2))"
    and n2: "set n2 \<subseteq> X" "distinct ((ord @ n1) @ n2)" "set ys \<subseteq> set ((ord @ n1) @ n2)"
    by blast
  from a o have "order_items h m (y # ys) (ord, ?id ` set ord)
                 = Some (ord @ (n1 @ n2), ?id ` set (ord @ (n1 @ n2)))"
    by simp
  moreover from n1 n2 have "set (n1 @ n2) \<subseteq> X" "distinct (ord @ (n1 @ n2))"
    "set (y # ys) \<subseteq> set (ord @ (n1 @ n2))"
    by auto
  ultimately show ?case
    by blast
qed

lemma check_items_error:
  "check_items h m ys V = Inl e \<Longrightarrow> e = DanglingReferenceError \<or> e = CycleError"
proof (induction ys arbitrary: V)
  case Nil
  then show ?case by simp
next
  case (Cons y ys)
  show ?case
  proof (cases "checkCycle h m y V")
    case (Inl e')
    with Cons.prems checkCycle_result(1) [OF Inl] show ?thesis
      by (auto split: if_splits)
  next
    case (Inr V1)
    with Cons show ?thesis
      by (auto split: if_splits)
  qed
qed

lemma constructor_cases:
  "constructor xs s = Some (Inl DuplicateIdError)
   \<or> constructor xs s = Some (Inl DanglingReferenceError)
   \<or> constructor xs s = Some (Inl CycleError)
   \<or> (\<exists>ys. constructor xs s = Some (Inr (s\<lparr>itemsList := ys\<rparr>)) \<and> mset ys = mset xs
           \<and> distinct (map (\<lambda>r. id_of (heap s r)) xs))"
proof (cases "distinct (map (\<lambda>r. id_of (heap s r)) xs)")
  case False
  then show ?thesis
    by (simp add: constructor_def build_itemMap_eq)
next
  case True
  let ?h = "heap s"
  let ?id = "\<lambda>r. id_of (?h r)"
  let ?m = "index_of ?h xs"
  from True have b: "build_itemMap ?h xs [] = Inr ?m"
    by (simp only: build_itemMap_index)
  show ?thesis
  proof (cases "check_items ?h ?m xs {}")
    case (Inl e)
    with b check_items_error [OF Inl] show ?thesis
      by (auto simp: constructor_def)
  next
    case (Inr V')
    from check_items_ok [OF Inr] have walks: "\<forall>x \<in> set xs. checkCycle ?h ?m x {} = Inr {}"
      by simp
    from True have M: "\<forall>k r. map_of ?m k = Some r \<longrightarrow> r \<in> set xs"
      by (simp add: index_of_Some)
    from True have inj: "inj_on ?id (set xs)" and dx: "distinct xs"
      by (simp_all add: distinct_map)
    from order_items_returns [OF walks M inj, of "[]"]
    obtain ys where o: "order_items ?h ?m xs ([], {}) = Some (ys, ?id ` set ys)"
      and ys: "set ys \<subseteq> set xs" "distinct ys" "set xs \<subseteq> set ys"
      by auto
    from ys dx have "mset ys = mset xs"
      by (simp add: set_eq_iff_mset_eq_distinct [symmetric] subset_antisym)
    moreover from b Inr o have "constructor xs s = Some (Inr (s\<lparr>itemsList := ys\<rparr>))"
      by (simp add: constructor_def)
    ultimately show ?thesis
      using True by blast
  qed
qed

text \<open>Construction always returns: with an error or with a whiteboard.\<close>

lemma constructor_returns: "constructor xs s \<noteq> None"
  using constructor_cases [of xs s] by auto

text \<open>
  C4, as amended. The constructor makes no check of branching. Every whiteboard it
  produces holds each record of the input exactly once, with pairwise distinct ids, and
  satisfies the no-branching invariant exactly when the input records do.
\<close>

theorem construction_keeps_records:
  assumes "constructor xs s = Some (Inr s')"
  shows "heap s' = heap s \<and> mset (items s') = mset xs
         \<and> distinct (map (\<lambda>r. id_of (heap s' r)) (items s'))
         \<and> (no_branching (heap s') (items s') \<longleftrightarrow> no_branching (heap s) xs)"
proof -
  from assms constructor_cases [of xs s] obtain ys where
    s': "s' = s\<lparr>itemsList := ys\<rparr>" and p: "mset ys = mset xs"
    and d: "distinct (map (\<lambda>r. id_of (heap s r)) xs)"
    by auto
  from p have "mset (map (\<lambda>r. id_of (heap s r)) ys) = mset (map (\<lambda>r. id_of (heap s r)) xs)"
    by simp
  with d have "distinct (map (\<lambda>r. id_of (heap s r)) ys)"
    using mset_eq_imp_distinct_iff by blast
  moreover from p have "set ys = set xs"
    by (rule mset_eq_setD)
  then have "no_branching (heap s) ys \<longleftrightarrow> no_branching (heap s) xs"
    by (simp add: no_branching_def)
  ultimately show ?thesis
    using p by (simp add: s' items_def)
qed

theorem construction_keeps_records_witness:
  "constructor [0, 1, 2, 3] test_start = Some (Inr test_board)
   \<and> mset (items test_board) = mset [0, 1, 2, 3]
   \<and> no_branching (heap test_board) (items test_board)"
proof -
  have run: "constructor [0, 1, 2, 3] test_start = Some (Inr test_board)"
    by (simp add: constructor_def test_start_def test_board_def objects_def test_objects_def
        checkCycle.simps addItemToOrder.simps)
  have "no_branching (heap test_start) [0, 1, 2, 3]"
    by (simp add: no_branching_def test_start_def objects_def test_objects_def)
  with construction_keeps_records [OF run] run show ?thesis
    by blast
qed

text \<open>
  C4 as stated fails: from dog and two records on top of dog, construction succeeds,
  and the whiteboard holds two records with the same \<^verbatim>\<open>lowerId\<close>.
\<close>

theorem construction_accepts_branching:
  "lowerId (heap branching_start 1) = JStr ''dog''
   \<and> lowerId (heap branching_start 2) = JStr ''dog''
   \<and> constructor [0, 1, 2] branching_start = Some (Inr (branching_start\<lparr>itemsList := [0, 1, 2]\<rparr>))
   \<and> \<not> no_branching (heap branching_start) [0, 1, 2]"
  by (simp add: constructor_def branching_start_def objects_def checkCycle.simps
      addItemToOrder.simps no_branching_def)

section \<open>Construction: a single chain\<close>












section \<open>The test suite on the model\<close>

text \<open>
  Three tests of \<^verbatim>\<open>src/test/whiteboard.test.js\<close>, run on the model: construction from
  no items, construction from items without a bottom item, and the assertions of the
  first \<^verbatim>\<open>extract\<close> test. That test asks for one returned record without \<^verbatim>\<open>lowerId\<close> and
  for the other to point to it; it does not ask which of the two is the bottom one.
\<close>

lemma test_constructor_no_items:
  "constructor [] s = Some (Inr (s\<lparr>itemsList := []\<rparr>)) \<and> top_item (s\<lparr>itemsList := []\<rparr>) = None"
  by (simp add: constructor_def top_item_def)

lemma test_constructor_no_bottom_item:
  "constructor [0, 1, 2, 3] dangling_start = Some (Inl DanglingReferenceError)"
  by (simp add: constructor_def dangling_start_def objects_def)

lemma test_extract_assertions:
  "fst (extract_items test_random [4, 5] test_board) = Inr [6, 7]
   \<and> map (\<lambda>r. data (heap (snd (extract_items test_random [4, 5] test_board)) r)) [6, 7]
       = [''zz'', ''yy'']
   \<and> JStr ''tortoise'' \<notin> (\<lambda>r. id_of (heap (snd (extract_items test_random [4, 5] test_board)) r)) ` set [6, 7]
   \<and> JStr ''rabbit'' \<notin> (\<lambda>r. id_of (heap (snd (extract_items test_random [4, 5] test_board)) r)) ` set [6, 7]
   \<and> filter (\<lambda>r. lowerId (heap (snd (extract_items test_random [4, 5] test_board)) r) = Undefined) [6, 7]
       = [6]"
  by code_simp

end
